theory Spec2Isabelle
  imports
    Main
    "HOL-Library.AList"
    "HOL-Library.Char_ord"
    "HOL-Library.List_Lexorder"
    "HOL-Library.Product_Lexorder"
begin

section \<open>Data model\<close>

text \<open>
  The development embeds \<^verbatim>\<open>converter.py\<close>. A Python \<^verbatim>\<open>str\<close> is modelled as a
  \<^typ>\<open>string\<close> whose characters are the code points 0..255; on that range the
  regular-expression class \<^verbatim>\<open>\d\<close> is exactly the ten ASCII digits. A Python
  \<^verbatim>\<open>dict\<close> is an association list with distinct keys in insertion order, since
  the serialisers sort the keys with a stable sort and so observe that order.
\<close>

datatype error = IndexError | AttributeError

type_synonym conns = "(char \<times> string) list"

type_synonym components = "(string \<times> conns) list"

section \<open>Python primitives used by the converter\<close>

text \<open>\<^verbatim>\<open>str.isspace\<close> on the code points below 256.\<close>

definition isspace :: "char \<Rightarrow> bool" where
  "isspace c = (of_char c \<in> {9, 10, 11, 12, 13, 28, 29, 30, 31, 32, 133, 160 :: nat})"

text \<open>\<^verbatim>\<open>data.strip()\<close>: whitespace is removed at the two outer edges only.\<close>

definition strip :: "string \<Rightarrow> string" where
  "strip s = rev (dropWhile isspace (rev (dropWhile isspace s)))"

text \<open>
  \<^verbatim>\<open>s.split('->')\<close>: the separator occurrences are found left to right without
  overlap; the result always has at least one element, possibly the empty string.
\<close>

fun split_arrow :: "string \<Rightarrow> string list" where
  "split_arrow [] = [[]]"
| "split_arrow [c] = [[c]]"
| "split_arrow (c # d # cs) =
     (if c = CHR ''-'' \<and> d = CHR ''>'' then [] # split_arrow cs
      else (case split_arrow (d # cs) of
              t # ts \<Rightarrow> (c # t) # ts
            | [] \<Rightarrow> [[c]]))"

text \<open>Python list indexing: a negative index counts from the end, anything else out of range raises.\<close>

definition py_index :: "'a list \<Rightarrow> int \<Rightarrow> error + 'a" where
  "py_index xs i =
     (if 0 \<le> i \<and> i < int (length xs) then Inr (xs ! nat i)
      else if i < 0 \<and> - int (length xs) \<le> i then Inr (xs ! nat (int (length xs) + i))
      else Inl IndexError)"

text \<open>\<^verbatim>\<open>enumerate(path)\<close>.\<close>

definition enumerate_py :: "'a list \<Rightarrow> (int \<times> 'a) list" where
  "enumerate_py xs = zip (map int [0..<length xs]) xs"

section \<open>The terminal pattern\<close>

definition isdigit :: "char \<Rightarrow> bool" where
  "isdigit c = (c \<in> set ''0123456789'')"

text \<open>The alternation \<^verbatim>\<open>(NM|PM|R|C)\<close> at the start of a token: the matched prefix and the rest.\<close>

definition match_comp_type :: "string \<Rightarrow> (string \<times> string) option" where
  "match_comp_type s =
     (if take 2 s = ''NM'' then Some (''NM'', drop 2 s)
      else if take 2 s = ''PM'' then Some (''PM'', drop 2 s)
      else if take 1 s = ''R'' then Some (''R'', drop 1 s)
      else if take 1 s = ''C'' then Some (''C'', drop 1 s)
      else None)"

text \<open>
  \<^verbatim>\<open>terminal_regex.match(part)\<close> for \<^verbatim>\<open>^(NM|PM|R|C)(\d+)_([DGSBPN])$\<close>, returning
  the three groups. The digit run is greedy and no shorter run can match, because the
  character after it must be the underscore. Without the multi-line flag \<^verbatim>\<open>$\<close> matches
  at the very end of the string and also just before a final newline, so a token may
  carry one trailing newline after the terminal letter.
\<close>

definition terminal_regex :: "string \<Rightarrow> (string \<times> string \<times> char) option" where
  "terminal_regex part =
     (case match_comp_type part of
        None \<Rightarrow> None
      | Some (comp_type, r) \<Rightarrow>
          (let comp_num = takeWhile isdigit r; r2 = dropWhile isdigit r in
           if comp_num = [] then None
           else (case r2 of
                   [u, t] \<Rightarrow>
                     if u = CHR ''_'' \<and> t \<in> set ''DGSBPN''
                     then Some (comp_type, comp_num, t) else None
                 | [u, t, n] \<Rightarrow>
                     if u = CHR ''_'' \<and> t \<in> set ''DGSBPN'' \<and> n = CHR 0x0A
                     then Some (comp_type, comp_num, t) else None
                 | _ \<Rightarrow> None)))"

section \<open>The connection map\<close>

text \<open>
  \<^verbatim>\<open>components[comp_name]\<close> on the \<^verbatim>\<open>defaultdict(dict)\<close>: a missing key is inserted
  with an empty inner dictionary. The updated outer dictionary and the inner one are returned.
\<close>

definition defaultdict_get :: "components \<Rightarrow> string \<Rightarrow> components \<times> conns" where
  "defaultdict_get components comp_name =
     (case map_of components comp_name of
        Some d \<Rightarrow> (components, d)
      | None \<Rightarrow> (components @ [(comp_name, [])], []))"

text \<open>
  The guarded assignment
  \<^verbatim>\<open>if term_type not in components[comp_name]: components[comp_name][term_type] = part\<close>.
\<close>

definition record_conn :: "components \<Rightarrow> string \<Rightarrow> char \<Rightarrow> string \<Rightarrow> components" where
  "record_conn components comp_name term_type part =
     (case defaultdict_get components comp_name of
        (components1, d) \<Rightarrow>
          if map_of d term_type = None
          then AList.update comp_name (AList.update term_type part d) components1
          else components1)"

text \<open>
  The flag \<^verbatim>\<open>is_prev_part_of_same_comp\<close> (and its twin for the next part): the
  neighbour is itself a terminal token and its component name is \<^verbatim>\<open>comp_name\<close>.
\<close>

definition is_part_of_same_comp :: "string \<Rightarrow> string \<Rightarrow> bool" where
  "is_part_of_same_comp neighbour comp_name =
     (case terminal_regex neighbour of
        None \<Rightarrow> False
      | Some (g1, g2, g3) \<Rightarrow> g1 @ g2 = comp_name)"

text \<open>One neighbour inspection: the exclusion test followed by the guarded assignment.\<close>

definition inspect_neighbour :: "components \<Rightarrow> string \<Rightarrow> char \<Rightarrow> string \<Rightarrow> components" where
  "inspect_neighbour components comp_name term_type neighbour =
     (if neighbour \<noteq> comp_name \<and> \<not> is_part_of_same_comp neighbour comp_name
      then record_conn components comp_name term_type neighbour
      else components)"

text \<open>The body of the \<^verbatim>\<open>for i, part in enumerate(path)\<close> loop.\<close>

definition loop_body :: "string list \<Rightarrow> int \<times> string \<Rightarrow> components \<Rightarrow> error + components" where
  "loop_body path ip components =
     (case ip of (i, part) \<Rightarrow>
        (case terminal_regex part of
           None \<Rightarrow> Inr components
         | Some (comp_type, comp_num, term_type) \<Rightarrow>
             (let comp_name = comp_type @ comp_num in
              (case (if i > 0
                     then (case py_index path (i - 1) of
                             Inl e \<Rightarrow> Inl e
                           | Inr prev_part \<Rightarrow>
                               Inr (inspect_neighbour components comp_name term_type prev_part))
                     else Inr components) of
                 Inl e \<Rightarrow> Inl e
               | Inr components1 \<Rightarrow>
                   if i < int (length path) - 1
                   then (case py_index path (i + 1) of
                           Inl e \<Rightarrow> Inl e
                         | Inr next_part \<Rightarrow>
                             Inr (inspect_neighbour components1 comp_name term_type next_part))
                   else Inr components1))))"

text \<open>A \<^verbatim>\<open>for\<close> loop over a list that threads a state and stops at the first exception.\<close>

fun for_loop :: "('a \<Rightarrow> 's \<Rightarrow> error + 's) \<Rightarrow> 'a list \<Rightarrow> 's \<Rightarrow> error + 's" where
  "for_loop body [] s = Inr s"
| "for_loop body (x # xs) s =
     (case body x s of Inl e \<Rightarrow> Inl e | Inr s' \<Rightarrow> for_loop body xs s')"

definition parse_tokens :: "string list \<Rightarrow> error + components" where
  "parse_tokens path = for_loop (loop_body path) (enumerate_py path) []"

definition parse_connections :: "string \<Rightarrow> error + components" where
  "parse_connections data = parse_tokens (split_arrow (strip data))"

text \<open>Reading the finished map: \<^verbatim>\<open>components.get(c, {}).get(t)\<close>.\<close>

definition lookup_conn :: "components \<Rightarrow> string \<Rightarrow> char \<Rightarrow> string option" where
  "lookup_conn components comp_name term_type =
     (case map_of components comp_name of
        None \<Rightarrow> None
      | Some d \<Rightarrow> map_of d term_type)"

section \<open>The SPICE serialiser\<close>

definition isupper_AZ :: "char \<Rightarrow> bool" where
  "isupper_AZ c = (c \<in> set ''ABCDEFGHIJKLMNOPQRSTUVWXYZ'')"

text \<open>
  \<^verbatim>\<open>re.match(r"([A-Z]+)(\d+)", x)\<close>, returning the two groups. Both runs are greedy;
  giving back a letter cannot help, since a digit must follow the letters.
\<close>

definition name_regex :: "string \<Rightarrow> (string \<times> string) option" where
  "name_regex x =
     (let g1 = takeWhile isupper_AZ x; g2 = takeWhile isdigit (dropWhile isupper_AZ x) in
      if g1 = [] \<or> g2 = [] then None else Some (g1, g2))"

text \<open>
  \<^verbatim>\<open>int(s)\<close> on a string of ASCII digits (leading zeros are accepted). The
  interpreter's configurable limit on the length of the digit string is not modelled.
\<close>

definition py_int :: "string \<Rightarrow> int" where
  "py_int s = foldl (\<lambda>a c. 10 * a + (int (of_char c) - 48)) 0 s"

text \<open>The sort key of the lambda; \<^verbatim>\<open>.group\<close> on a failed match raises.\<close>

definition sort_key_of :: "string \<Rightarrow> error + (string \<times> int)" where
  "sort_key_of x =
     (case name_regex x of
        None \<Rightarrow> Inl AttributeError
      | Some (g1, g2) \<Rightarrow> Inr (g1, py_int g2))"

fun map_err :: "('a \<Rightarrow> error + 'b) \<Rightarrow> 'a list \<Rightarrow> error + 'b list" where
  "map_err f [] = Inr []"
| "map_err f (x # xs) =
     (case f x of
        Inl e \<Rightarrow> Inl e
      | Inr y \<Rightarrow> (case map_err f xs of Inl e \<Rightarrow> Inl e | Inr ys \<Rightarrow> Inr (y # ys)))"

text \<open>
  \<^verbatim>\<open>sorted(components.keys(), key=...)\<close>: every key is decorated with its sort key,
  the pairs are sorted on the sort key alone by a stable sort, and the names are read back.
  Tuples compare lexicographically, strings by code point, the numbers as integers.
\<close>

definition sorted_comp_names :: "components \<Rightarrow> error + string list" where
  "sorted_comp_names components =
     (case map_err sort_key_of (map fst components) of
        Inl e \<Rightarrow> Inl e
      | Inr ks \<Rightarrow> Inr (map snd (sort_key fst (zip ks (map fst components)))))"

definition startswith :: "string \<Rightarrow> string \<Rightarrow> bool" where
  "startswith s p = (take (length p) s = p)"

text \<open>\<^verbatim>\<open>conns.get(term, 'NC')\<close>.\<close>

definition conns_get :: "conns \<Rightarrow> char \<Rightarrow> string" where
  "conns_get conns term = (case map_of conns term of None \<Rightarrow> ''NC'' | Some net \<Rightarrow> net)"

text \<open>The line a component contributes; \<open>None\<close> when no branch of the chain applies.\<close>

definition spice_line :: "string \<Rightarrow> conns \<Rightarrow> string option" where
  "spice_line name conns =
     (if startswith name ''NM'' then
        Some (''M'' @ drop 2 name @ '' '' @ conns_get conns (CHR ''D'') @ '' '' @
              conns_get conns (CHR ''G'') @ '' '' @ conns_get conns (CHR ''S'') @ '' '' @
              conns_get conns (CHR ''B'') @ '' nmos_model'')
      else if startswith name ''PM'' then
        Some (''M'' @ drop 2 name @ '' '' @ conns_get conns (CHR ''D'') @ '' '' @
              conns_get conns (CHR ''G'') @ '' '' @ conns_get conns (CHR ''S'') @ '' '' @
              conns_get conns (CHR ''B'') @ '' pmos_model'')
      else if startswith name ''R'' then
        Some (''R'' @ drop 1 name @ '' '' @ conns_get conns (CHR ''P'') @ '' '' @
              conns_get conns (CHR ''N'') @ '' 1k'')
      else if startswith name ''C'' then
        Some (''C'' @ drop 1 name @ '' '' @ conns_get conns (CHR ''P'') @ '' '' @
              conns_get conns (CHR ''N'') @ '' 1p'')
      else None)"

text \<open>\<^verbatim>\<open>components[name]\<close> for a name taken from the keys.\<close>

definition dict_item :: "components \<Rightarrow> string \<Rightarrow> conns" where
  "dict_item components name = (case map_of components name of None \<Rightarrow> [] | Some d \<Rightarrow> d)"

fun join :: "string \<Rightarrow> string list \<Rightarrow> string" where
  "join sep [] = []"
| "join sep [x] = x"
| "join sep (x # y # ys) = x @ sep @ join sep (y # ys)"

definition netlist_lines :: "components \<Rightarrow> string list \<Rightarrow> string list" where
  "netlist_lines components names =
     [''* Generated SPICE netlist''] @
     concat (map (\<lambda>name. case spice_line name (dict_item components name) of
                           None \<Rightarrow> [] | Some line \<Rightarrow> [line]) names) @
     [''.END'']"

definition generate_spice_netlist :: "components \<Rightarrow> error + string" where
  "generate_spice_netlist components =
     (case sorted_comp_names components of
        Inl e \<Rightarrow> Inl e
      | Inr names \<Rightarrow> Inr (join [CHR 0x0A] (netlist_lines components names)))"

section \<open>The cells of the schematic document\<close>

text \<open>
  Of \<^verbatim>\<open>generate_netlistsvg_json\<close> the dictionary \<^verbatim>\<open>cells\<close> is modelled, as it stands
  when it is handed to \<^verbatim>\<open>json.dumps\<close>, which writes the entries of a dictionary in
  insertion order.
\<close>

definition port_directions :: "string \<Rightarrow> (char \<times> string) list" where
  "port_directions comp_type_prefix =
     (if comp_type_prefix \<in> set [''NM'', ''PM'']
      then [(CHR ''D'', ''input''), (CHR ''G'', ''input''), (CHR ''S'', ''input''), (CHR ''B'', ''input'')]
      else if comp_type_prefix \<in> set [''R'', ''C'']
      then [(CHR ''P'', ''input''), (CHR ''N'', ''input'')]
      else [])"

definition type_map_get :: "string \<Rightarrow> string" where
  "type_map_get comp_type_prefix =
     (case map_of [(''NM'', ''nmos''), (''PM'', ''pmos''), (''R'', ''resistor''), (''C'', ''capacitor'')]
             comp_type_prefix of
        None \<Rightarrow> ''unknown''
      | Some ty \<Rightarrow> ty)"

text \<open>\<^verbatim>\<open>net_map\<close>: the distinct net names in ascending order, numbered from 1.\<close>

definition net_map :: "components \<Rightarrow> (string \<times> int) list" where
  "net_map components =
     (let nets = sort (remdups (concat (map (\<lambda>(comp, conns). map snd conns) components)))
      in zip nets (map (\<lambda>n. int n + 1) [0..<length nets]))"

record cell =
  cell_type :: string
  cell_port_directions :: "(char \<times> string) list"
  cell_connections :: "(char \<times> int list) list"

definition make_cell :: "components \<Rightarrow> string \<Rightarrow> error + cell" where
  "make_cell components comp_name =
     (let conns = dict_item components comp_name;
          comp_type_prefix = takeWhile isupper_AZ comp_name
      in if comp_type_prefix = [] then Inl AttributeError
         else Inr \<lparr>cell_type = type_map_get comp_type_prefix,
                   cell_port_directions = port_directions comp_type_prefix,
                   cell_connections =
                     foldl (\<lambda>connections (term, net).
                              case map_of (net_map components) net of
                                None \<Rightarrow> connections
                              | Some n \<Rightarrow> AList.update term [n] connections) [] conns\<rparr>)"

definition netlistsvg_cells :: "components \<Rightarrow> error + (string \<times> cell) list" where
  "netlistsvg_cells components =
     (case sorted_comp_names components of
        Inl e \<Rightarrow> Inl e
      | Inr names \<Rightarrow>
          for_loop (\<lambda>comp_name cells.
                      case make_cell components comp_name of
                        Inl e \<Rightarrow> Inl e
                      | Inr c \<Rightarrow> Inr (AList.update comp_name c cells)) names [])"

section \<open>Notions of the specification\<close>

text \<open>
  The identifier pattern of a component instance: one of the four prefixes followed by a
  non-empty run of digits and nothing else.
\<close>

definition comp_id_pattern :: "string \<Rightarrow> bool" where
  "comp_id_pattern s =
     (case match_comp_type s of
        None \<Rightarrow> False
      | Some (ty, r) \<Rightarrow> r \<noteq> [] \<and> list_all isdigit r)"

text \<open>
  The terminal codes a component type defines, as the serialiser lists them in
  \<^const>\<open>port_directions\<close>: D, G, S, B for the transistors and P, N for the passives.
\<close>

definition legal_terminal_codes :: "string \<Rightarrow> char list" where
  "legal_terminal_codes comp_type_prefix = map fst (port_directions comp_type_prefix)"

text \<open>The type prefix of a token or identifier: what stands before its first digit.\<close>

definition type_prefix :: "string \<Rightarrow> string" where
  "type_prefix tok = takeWhile (\<lambda>c. \<not> isdigit c) tok"

text \<open>A neighbour token counts as an external node of a component.\<close>

definition external_node :: "string \<Rightarrow> string \<Rightarrow> bool" where
  "external_node neighbour comp_name =
     (neighbour \<noteq> comp_name \<and> \<not> is_part_of_same_comp neighbour comp_name)"

text \<open>
  The discoveries the path offers for one terminal of one component, in the order the
  scan meets them: positions ascending, and at a position the left neighbour before the
  right one.
\<close>

definition discoveries_at :: "string list \<Rightarrow> nat \<Rightarrow> string \<Rightarrow> char \<Rightarrow> string list" where
  "discoveries_at path i comp_name term_type =
     (case terminal_regex (path ! i) of
        None \<Rightarrow> []
      | Some (ty, num, t) \<Rightarrow>
          if ty @ num = comp_name \<and> t = term_type
          then (if 0 < i \<and> external_node (path ! (i - 1)) comp_name then [path ! (i - 1)] else []) @
               (if i + 1 < length path \<and> external_node (path ! (i + 1)) comp_name
                then [path ! (i + 1)] else [])
          else [])"

definition discoveries :: "string list \<Rightarrow> string \<Rightarrow> char \<Rightarrow> string list" where
  "discoveries path comp_name term_type =
     concat (map (\<lambda>i. discoveries_at path i comp_name term_type) [0..<length path])"

fun first_elem :: "'a list \<Rightarrow> 'a option" where
  "first_elem [] = None"
| "first_elem (v # _) = Some v"

definition first_discovery :: "string list \<Rightarrow> string \<Rightarrow> char \<Rightarrow> string option" where
  "first_discovery path comp_name term_type = first_elem (discoveries path comp_name term_type)"

section \<open>Basic facts about the loop and the pattern\<close>

lemma enumerate_py_conv: "enumerate_py xs = map (\<lambda>n. (int n, xs ! n)) [0..<length xs]"
  unfolding enumerate_py_def by (rule nth_equalityI) auto

lemma loop_body_in_range:
  assumes "n < length path"
  shows "loop_body path (int n, part) comps =
     Inr (case terminal_regex part of
            None \<Rightarrow> comps
          | Some (ty, num, t) \<Rightarrow>
              (let c1 = (if 0 < n then inspect_neighbour comps (ty @ num) t (path ! (n - 1)) else comps)
               in if n + 1 < length path then inspect_neighbour c1 (ty @ num) t (path ! (n + 1)) else c1))"
proof -
  have a: "nat (int n - 1) = n - 1" by simp
  have b: "nat (int n + 1) = n + 1" by simp
  have c: "(int n < int (length path) - 1) = (n + 1 < length path)" by auto
  show ?thesis using assms
    unfolding loop_body_def py_index_def
    by (auto split: option.splits simp: Let_def a b c simp del: of_nat_diff)
qed

lemma for_loop_invariant:
  assumes "P s" and "\<And>x s. x \<in> set xs \<Longrightarrow> P s \<Longrightarrow> \<exists>s'. body x s = Inr s' \<and> P s'"
  shows "\<exists>s'. for_loop body xs s = Inr s' \<and> P s'"
  using assms
proof (induction xs arbitrary: s)
  case Nil
  then show ?case by simp
next
  case (Cons x xs)
  from Cons.prems obtain s1 where s1: "body x s = Inr s1" "P s1" by (meson list.set_intros(1))
  have "\<exists>s'. for_loop body xs s1 = Inr s' \<and> P s'"
    by (rule Cons.IH[OF s1(2)]) (use Cons.prems(2) in auto)
  with s1 show ?case by simp
qed

lemma match_comp_type_SomeD:
  assumes "match_comp_type s = Some (ty, r)"
  shows "ty \<in> set [''NM'', ''PM'', ''R'', ''C''] \<and> s = ty @ r"
proof -
  have "take n s @ drop n s = s" for n by simp
  then show ?thesis using assms
    unfolding match_comp_type_def
    by (auto split: if_splits)
qed

lemma match_comp_type_append:
  assumes "ty \<in> set [''NM'', ''PM'', ''R'', ''C'']"
  shows "match_comp_type (ty @ r) = Some (ty, r)"
  using assms unfolding match_comp_type_def by auto

lemma terminal_regex_SomeD:
  assumes "terminal_regex part = Some (ty, num, t)"
  shows "ty \<in> set [''NM'', ''PM'', ''R'', ''C'']" "num \<noteq> []" "\<forall>c\<in>set num. isdigit c"
    "t \<in> set ''DGSBPN''"
    "part = ty @ num @ [CHR ''_'', t] \<or> part = ty @ num @ [CHR ''_'', t, CHR 0x0A]"
proof -
  from assms obtain r where m: "match_comp_type part = Some (ty, r)"
    and n: "num = takeWhile isdigit r" and ne: "num \<noteq> []"
    and r2: "dropWhile isdigit r = [CHR ''_'', t] \<or> dropWhile isdigit r = [CHR ''_'', t, CHR 0x0A]"
    and t: "t \<in> set ''DGSBPN''"
    unfolding terminal_regex_def
    by (auto split: option.splits list.splits if_splits simp: Let_def)
  from match_comp_type_SomeD[OF m] show "ty \<in> set [''NM'', ''PM'', ''R'', ''C'']" by simp
  show "num \<noteq> []" by (rule ne)
  show "\<forall>c\<in>set num. isdigit c" unfolding n by (auto dest: set_takeWhileD)
  show "t \<in> set ''DGSBPN''" by (rule t)
  have "r = num @ dropWhile isdigit r" unfolding n by simp
  with match_comp_type_SomeD[OF m] r2
  show "part = ty @ num @ [CHR ''_'', t] \<or> part = ty @ num @ [CHR ''_'', t, CHR 0x0A]"
    by auto
qed

lemma terminal_regex_complete:
  assumes "ty \<in> set [''NM'', ''PM'', ''R'', ''C'']" "num \<noteq> []" "\<forall>c\<in>set num. isdigit c"
    "t \<in> set ''DGSBPN''"
  shows "terminal_regex (ty @ num @ [CHR ''_'', t]) = Some (ty, num, t)"
    "terminal_regex (ty @ num @ [CHR ''_'', t, CHR 0x0A]) = Some (ty, num, t)"
proof -
  have nd: "\<not> isdigit (CHR ''_'')" by (simp add: isdigit_def)
  have tw: "takeWhile isdigit (num @ CHR ''_'' # rest) = num" for rest
    using assms(3) nd by (simp add: takeWhile_append2)
  have dw: "dropWhile isdigit (num @ CHR ''_'' # rest) = CHR ''_'' # rest" for rest
    using assms(3) nd by (simp add: dropWhile_append2)
  show "terminal_regex (ty @ num @ [CHR ''_'', t]) = Some (ty, num, t)"
    using assms(2,4) unfolding terminal_regex_def
    by (simp add: match_comp_type_append[OF assms(1)] tw dw)
  show "terminal_regex (ty @ num @ [CHR ''_'', t, CHR 0x0A]) = Some (ty, num, t)"
    using assms(2,4) unfolding terminal_regex_def
    by (simp add: match_comp_type_append[OF assms(1)] tw dw)
qed

lemma terminal_regex_bad_letter:
  assumes "ty \<in> set [''NM'', ''PM'', ''R'', ''C'']" "\<forall>c\<in>set num. isdigit c"
    "z \<notin> set ''DGSBPN''"
  shows "terminal_regex (ty @ num @ [CHR ''_'', z]) = None"
proof -
  have nd: "\<not> isdigit (CHR ''_'')" by (simp add: isdigit_def)
  have tw: "takeWhile isdigit (num @ CHR ''_'' # rest) = num" for rest
    using assms(2) nd by (simp add: takeWhile_append2)
  have dw: "dropWhile isdigit (num @ CHR ''_'' # rest) = CHR ''_'' # rest" for rest
    using assms(2) nd by (simp add: dropWhile_append2)
  show ?thesis
    using assms(3) unfolding terminal_regex_def
    by (simp add: match_comp_type_append[OF assms(1)] tw dw)
qed

lemma update_append_fresh:
  "k \<notin> fst ` set xs \<Longrightarrow> AList.update k v (xs @ ys) = xs @ AList.update k v ys"
  by (induction xs) auto

lemma update_fresh: "map_of al k = None \<Longrightarrow> AList.update k v al = al @ [(k, v)]"
  using update_append_fresh[of k al v "[]"] by (simp add: map_of_eq_None_iff)

lemma set_update_subset: "set (AList.update k v al) \<subseteq> insert (k, v) (set al)"
  by (induction al) auto

lemma record_conn_eq:
  "record_conn comps c t v =
     (case map_of comps c of
        None \<Rightarrow> comps @ [(c, [(t, v)])]
      | Some d0 \<Rightarrow> if map_of d0 t = None then AList.update c (d0 @ [(t, v)]) comps else comps)"
proof (cases "map_of comps c")
  case None
  then have "c \<notin> fst ` set comps" by (simp add: map_of_eq_None_iff)
  then show ?thesis
    unfolding record_conn_def defaultdict_get_def
    by (simp add: None update_append_fresh)
next
  case (Some d0)
  show ?thesis
    unfolding record_conn_def defaultdict_get_def
    by (simp add: Some update_fresh)
qed

lemma record_conn_cases:
  assumes "(k, d) \<in> set (record_conn comps c t v)"
  shows "(k, d) \<in> set comps \<or>
         (k = c \<and> (\<exists>d0. (d0 = [] \<or> (c, d0) \<in> set comps) \<and> map_of d0 t = None \<and> d = d0 @ [(t, v)]))"
proof (cases "map_of comps c")
  case None
  with assms show ?thesis by (auto simp: record_conn_eq)
next
  case (Some d0)
  then have in0: "(c, d0) \<in> set comps" by (rule map_of_SomeD)
  show ?thesis
  proof (cases "map_of d0 t = None")
    case True
    with assms Some have "(k, d) \<in> insert (c, d0 @ [(t, v)]) (set comps)"
      using set_update_subset[of c "d0 @ [(t, v)]" comps] by (auto simp: record_conn_eq)
    with in0 True show ?thesis by auto
  next
    case False
    with assms Some show ?thesis by (auto simp: record_conn_eq)
  qed
qed

lemma record_conn_keys: "fst ` set (record_conn comps c t v) = insert c (fst ` set comps)"
proof (cases "map_of comps c")
  case None
  then show ?thesis by (auto simp: record_conn_eq)
next
  case (Some d0)
  then have "c \<in> fst ` set comps" by (metis map_of_SomeD fst_conv image_eqI)
  with Some show ?thesis by (auto simp: record_conn_eq dom_update)
qed

lemma record_conn_distinct_keys:
  "distinct (map fst comps) \<Longrightarrow> distinct (map fst (record_conn comps c t v))"
  by (auto simp: record_conn_eq distinct_update map_of_eq_None_iff split: option.splits)

lemma lookup_conn_record_conn:
  "lookup_conn (record_conn comps c t v) c' t' =
     (if c' = c \<and> t' = t \<and> lookup_conn comps c t = None then Some v
      else lookup_conn comps c' t')"
proof (cases "map_of comps c")
  case None
  then have "c \<notin> fst ` set comps" by (simp add: map_of_eq_None_iff)
  then have "map_of (comps @ [(c, [(t, v)])]) c' =
      (if c' = c then Some [(t, v)] else map_of comps c')"
    using None by (auto simp: map_add_def split: option.splits)
  then show ?thesis
    unfolding lookup_conn_def by (simp add: record_conn_eq None)
next
  case (Some d0)
  show ?thesis
  proof (cases "map_of d0 t = None")
    case True
    then show ?thesis
      unfolding lookup_conn_def
      by (simp add: record_conn_eq Some update_conv' map_add_def split: option.splits)
  next
    case False
    then show ?thesis
      unfolding lookup_conn_def by (auto simp: record_conn_eq Some)
  qed
qed

lemma inspect_neighbour_eq:
  "inspect_neighbour comps c t v =
     (if external_node v c then record_conn comps c t v else comps)"
  unfolding inspect_neighbour_def external_node_def by simp

lemma parse_tokens_induct:
  assumes base: "P []"
    and step: "\<And>comps ty num t v. P comps \<Longrightarrow>
        \<exists>tok\<in>set path. terminal_regex tok = Some (ty, num, t) \<Longrightarrow>
        v \<in> set path \<Longrightarrow> external_node v (ty @ num) \<Longrightarrow>
        P (record_conn comps (ty @ num) t v)"
  shows "\<exists>comps. parse_tokens path = Inr comps \<and> P comps"
  unfolding parse_tokens_def enumerate_py_conv
proof (rule for_loop_invariant[where P = P, OF base])
  fix x s
  assume x: "x \<in> set (map (\<lambda>n. (int n, path ! n)) [0..<length path])" and s: "P s"
  then obtain n where n: "n < length path" and xe: "x = (int n, path ! n)" by auto
  have insp: "P (inspect_neighbour c0 (ty @ num) t (path ! m))"
    if "P c0" "terminal_regex (path ! n) = Some (ty, num, t)" "m < length path"
    for c0 ty num t m
  proof -
    have "\<exists>tok\<in>set path. terminal_regex tok = Some (ty, num, t)"
      using that(2) n by (metis nth_mem)
    moreover have "path ! m \<in> set path" using that(3) by simp
    ultimately show ?thesis
      using that(1) step[of c0 ty num t "path ! m"] by (simp add: inspect_neighbour_eq)
  qed
  show "\<exists>s'. loop_body path x s = Inr s' \<and> P s'"
  proof (cases "terminal_regex (path ! n)")
    case None
    then show ?thesis using s by (simp add: xe loop_body_in_range[OF n])
  next
    case (Some a)
    obtain ty num t where a: "a = (ty, num, t)" by (cases a)
    have 1: "P (if 0 < n then inspect_neighbour s (ty @ num) t (path ! (n - 1)) else s)"
      using s insp[OF s Some[unfolded a], of "n - 1"] n by auto
    show ?thesis
      using 1 insp[OF 1 Some[unfolded a], of "n + 1"]
      by (simp add: xe loop_body_in_range[OF n] Some a Let_def)
  qed
qed

lemma parse_connections_induct:
  assumes "P []"
    and "\<And>comps ty num t v. P comps \<Longrightarrow>
        \<exists>tok\<in>set (split_arrow (strip data)). terminal_regex tok = Some (ty, num, t) \<Longrightarrow>
        v \<in> set (split_arrow (strip data)) \<Longrightarrow> external_node v (ty @ num) \<Longrightarrow>
        P (record_conn comps (ty @ num) t v)"
  shows "\<exists>comps. parse_connections data = Inr comps \<and> P comps"
  unfolding parse_connections_def
  by (rule parse_tokens_induct[where P = P]) (use assms in auto)

lemma comp_id_pattern_groups:
  assumes "terminal_regex tok = Some (ty, num, t)"
  shows "comp_id_pattern (ty @ num)"
  using terminal_regex_SomeD(1,2,3)[OF assms]
  unfolding comp_id_pattern_def
  by (simp add: match_comp_type_append list_all_iff)

text \<open>Each invariant of the connection map, in the form the induction rule consumes.\<close>

lemma parse_wellformed:
  "\<exists>comps. parse_connections data = Inr comps \<and>
     distinct (map fst comps) \<and> (\<forall>(k, d)\<in>set comps. distinct (map fst d))"
proof (rule parse_connections_induct)
  show "distinct (map fst []) \<and> (\<forall>(k, d)\<in>set ([] :: components). distinct (map fst d))" by simp
next
  fix comps :: components and ty num t v
  assume inv: "distinct (map fst comps) \<and> (\<forall>(k, d)\<in>set comps. distinct (map fst d))"
  have "distinct (map fst d)" if "(k, d) \<in> set (record_conn comps (ty @ num) t v)" for k d
    using record_conn_cases[OF that] inv by (auto simp: map_of_eq_None_iff)
  then show "distinct (map fst (record_conn comps (ty @ num) t v)) \<and>
      (\<forall>(k, d)\<in>set (record_conn comps (ty @ num) t v). distinct (map fst d))"
    using inv record_conn_distinct_keys by auto
qed

lemma parse_nonempty:
  "\<exists>comps. parse_connections data = Inr comps \<and> (\<forall>(k, d)\<in>set comps. d \<noteq> [])"
proof (rule parse_connections_induct)
  show "\<forall>(k, d)\<in>set ([] :: components). d \<noteq> []" by simp
next
  fix comps :: components and ty num t v
  assume inv: "\<forall>(k, d)\<in>set comps. d \<noteq> []"
  have "d \<noteq> []" if "(k, d) \<in> set (record_conn comps (ty @ num) t v)" for k d
    using record_conn_cases[OF that] inv by auto
  then show "\<forall>(k, d)\<in>set (record_conn comps (ty @ num) t v). d \<noteq> []" by auto
qed

lemma parse_keys_shape:
  "\<exists>comps. parse_connections data = Inr comps \<and>
     (\<forall>(k, d)\<in>set comps. comp_id_pattern k \<and>
        (\<exists>tok\<in>set (split_arrow (strip data)). \<exists>ty num t.
            terminal_regex tok = Some (ty, num, t) \<and> k = ty @ num) \<and>
        (\<forall>(t, v)\<in>set d. t \<in> set ''DGSBPN''))"
  (is "\<exists>comps. _ \<and> ?Q comps")
proof (rule parse_connections_induct)
  show "?Q []" by simp
next
  fix comps :: components and ty num t v
  assume inv: "?Q comps"
    and tok: "\<exists>tok\<in>set (split_arrow (strip data)). terminal_regex tok = Some (ty, num, t)"
  from tok obtain tok where tk: "tok \<in> set (split_arrow (strip data))"
    "terminal_regex tok = Some (ty, num, t)" by blast
  note sh = terminal_regex_SomeD[OF tk(2)] comp_id_pattern_groups[OF tk(2)]
  have "comp_id_pattern k \<and>
        (\<exists>tok\<in>set (split_arrow (strip data)). \<exists>ty num t.
            terminal_regex tok = Some (ty, num, t) \<and> k = ty @ num) \<and>
        (\<forall>(t, v)\<in>set d. t \<in> set ''DGSBPN'')"
    if "(k, d) \<in> set (record_conn comps (ty @ num) t v)" for k d
  proof -
    from record_conn_cases[OF that] consider (old) "(k, d) \<in> set comps"
      | (new) d0 where "k = ty @ num" "d0 = [] \<or> (ty @ num, d0) \<in> set comps"
          "d = d0 @ [(t, v)]"
      by blast
    then show ?thesis
    proof cases
      case old
      with inv show ?thesis by blast
    next
      case new
      note k = new(1) and d0 = new(2) and d = new(3)
    have "\<forall>(t, v)\<in>set d0. t \<in> set ''DGSBPN''" using d0 inv by fastforce
    with sh(4) have "\<forall>(t, v)\<in>set d. t \<in> set ''DGSBPN''" unfolding d by auto
      with k sh(6) tk show ?thesis by blast
    qed
  qed
  then show "?Q (record_conn comps (ty @ num) t v)" by blast
qed

lemma parse_external:
  "\<exists>comps. parse_connections data = Inr comps \<and>
     (\<forall>(k, d)\<in>set comps. \<forall>(t, v)\<in>set d.
        v \<in> set (split_arrow (strip data)) \<and> external_node v k)"
  (is "\<exists>comps. _ \<and> ?Q comps")
proof (rule parse_connections_induct)
  show "?Q []" by simp
next
  fix comps :: components and ty num t v
  assume inv: "?Q comps"
    and v: "v \<in> set (split_arrow (strip data))" "external_node v (ty @ num)"
  have "\<forall>(t, v)\<in>set d. v \<in> set (split_arrow (strip data)) \<and> external_node v k"
    if "(k, d) \<in> set (record_conn comps (ty @ num) t v)" for k d
  proof -
    from record_conn_cases[OF that] consider (old) "(k, d) \<in> set comps"
      | (new) d0 where "k = ty @ num" "d0 = [] \<or> (ty @ num, d0) \<in> set comps"
          "d = d0 @ [(t, v)]"
      by blast
    then show ?thesis
    proof cases
      case old
      with inv show ?thesis by blast
    next
      case new
      note k = new(1) and d0 = new(2) and d = new(3)
    have "\<forall>(t, v')\<in>set d0. v' \<in> set (split_arrow (strip data)) \<and> external_node v' (ty @ num)"
      using d0 inv by fastforce
      with v show ?thesis unfolding d k by auto
    qed
  qed
  then show "?Q (record_conn comps (ty @ num) t v)" by blast
qed

lemma first_elem_append:
  "first_elem (xs @ ys) = (case first_elem xs of Some v \<Rightarrow> Some v | None \<Rightarrow> first_elem ys)"
  by (cases xs) auto

lemma lookup_conn_inspect:
  "lookup_conn (inspect_neighbour comps c t v) c' t' =
     (if c' = c \<and> t' = t \<and> lookup_conn comps c t = None \<and> external_node v c then Some v
      else lookup_conn comps c' t')"
  by (simp add: inspect_neighbour_eq lookup_conn_record_conn)

lemma loop_body_lookup:
  assumes n: "n < length path"
  shows "\<exists>comps'. loop_body path (int n, path ! n) comps = Inr comps' \<and>
     (\<forall>c t. lookup_conn comps' c t =
        (case lookup_conn comps c t of
           Some v \<Rightarrow> Some v
         | None \<Rightarrow> first_elem (discoveries_at path n c t)))"
proof (cases "terminal_regex (path ! n)")
  case None
  then show ?thesis
    by (simp add: loop_body_in_range[OF n] discoveries_at_def split: option.splits)
next
  case (Some a)
  obtain ty num t0 where a: "a = (ty, num, t0)" by (cases a)
  define c1 where "c1 = (if 0 < n then inspect_neighbour comps (ty @ num) t0 (path ! (n - 1)) else comps)"
  define c2 where "c2 = (if n + 1 < length path then inspect_neighbour c1 (ty @ num) t0 (path ! (n + 1)) else c1)"
  have res: "loop_body path (int n, path ! n) comps = Inr c2"
    by (simp add: loop_body_in_range[OF n] Some a Let_def c1_def c2_def)
  have "lookup_conn c2 c t =
        (case lookup_conn comps c t of
           Some v \<Rightarrow> Some v
         | None \<Rightarrow> first_elem (discoveries_at path n c t))" for c t
  proof (cases "ty @ num = c \<and> t0 = t")
    case False
    then have "lookup_conn c2 c t = lookup_conn comps c t"
      unfolding c2_def c1_def by (auto simp: lookup_conn_inspect)
    moreover have "discoveries_at path n c t = []"
      using False by (auto simp: discoveries_at_def Some a)
    ultimately show ?thesis by (simp split: option.splits)
  next
    case True
    then have ct: "c = ty @ num" "t = t0" by auto
    show ?thesis
    proof (cases "lookup_conn comps c t")
      case (Some v)
      then have "lookup_conn c1 c t = Some v" unfolding c1_def by (auto simp: lookup_conn_inspect)
      then have "lookup_conn c2 c t = Some v" unfolding c2_def by (auto simp: lookup_conn_inspect)
      with Some show ?thesis by simp
    next
      case None
      note none0 = None
      show ?thesis
      proof (cases "0 < n \<and> external_node (path ! (n - 1)) (ty @ num)")
        case True
        then have "lookup_conn c1 c t = Some (path ! (n - 1))"
          unfolding c1_def using none0 by (simp add: lookup_conn_inspect ct)
        then have "lookup_conn c2 c t = Some (path ! (n - 1))"
          unfolding c2_def by (auto simp: lookup_conn_inspect)
        moreover have "first_elem (discoveries_at path n c t) = Some (path ! (n - 1))"
          using True by (simp add: discoveries_at_def \<open>terminal_regex (path ! n) = Some a\<close> a ct)
        ultimately show ?thesis using none0 by simp
      next
        case False
        then have l1: "lookup_conn c1 c t = None"
          unfolding c1_def using none0 by (auto simp: lookup_conn_inspect ct)
        have "lookup_conn c2 c t =
            (if n + 1 < length path \<and> external_node (path ! (n + 1)) (ty @ num)
             then Some (path ! (n + 1)) else None)"
          unfolding c2_def using l1 by (auto simp: lookup_conn_inspect ct)
        moreover have "first_elem (discoveries_at path n c t) =
            (if n + 1 < length path \<and> external_node (path ! (n + 1)) (ty @ num)
             then Some (path ! (n + 1)) else None)"
          using False by (auto simp: discoveries_at_def \<open>terminal_regex (path ! n) = Some a\<close> a ct)
        ultimately show ?thesis using none0 by simp
      qed
    qed
  qed
  with res show ?thesis by blast
qed

lemma for_loop_lookup:
  assumes "\<forall>n\<in>set ns. n < length path"
  shows "\<exists>comps'. for_loop (loop_body path) (map (\<lambda>n. (int n, path ! n)) ns) comps = Inr comps' \<and>
     (\<forall>c t. lookup_conn comps' c t =
        (case lookup_conn comps c t of
           Some v \<Rightarrow> Some v
         | None \<Rightarrow> first_elem (concat (map (\<lambda>i. discoveries_at path i c t) ns))))"
  using assms
proof (induction ns arbitrary: comps)
  case Nil
  then show ?case by (simp split: option.splits)
next
  case (Cons n ns)
  then have n: "n < length path" by simp
  from loop_body_lookup[OF n, of comps] obtain c1 where
    c1: "loop_body path (int n, path ! n) comps = Inr c1"
    and l1: "\<And>c t. lookup_conn c1 c t =
        (case lookup_conn comps c t of
           Some v \<Rightarrow> Some v
         | None \<Rightarrow> first_elem (discoveries_at path n c t))" by blast
  from Cons.IH[of c1] Cons.prems obtain c2 where
    c2: "for_loop (loop_body path) (map (\<lambda>n. (int n, path ! n)) ns) c1 = Inr c2"
    and l2: "\<And>c t. lookup_conn c2 c t =
        (case lookup_conn c1 c t of
           Some v \<Rightarrow> Some v
         | None \<Rightarrow> first_elem (concat (map (\<lambda>i. discoveries_at path i c t) ns)))" by auto
  have "lookup_conn c2 c t =
        (case lookup_conn comps c t of
           Some v \<Rightarrow> Some v
         | None \<Rightarrow> first_elem (concat (map (\<lambda>i. discoveries_at path i c t) (n # ns))))" for c t
    by (simp add: l2 l1 first_elem_append split: option.splits)
  with c1 c2 show ?case by simp
qed

lemma parse_tokens_lookup:
  "\<exists>comps. parse_tokens path = Inr comps \<and>
     (\<forall>c t. lookup_conn comps c t = first_discovery path c t)"
proof -
  from for_loop_lookup[of "[0..<length path]" path "[]"]
  show ?thesis
    unfolding parse_tokens_def enumerate_py_conv first_discovery_def discoveries_def
    by (simp add: lookup_conn_def)
qed

lemma lookup_conn_monotone:
  "lookup_conn comps c t = Some v \<Longrightarrow> lookup_conn (inspect_neighbour comps c' t' nb) c t = Some v"
  by (auto simp: lookup_conn_inspect)

lemma parse_connections_lookup:
  "\<exists>comps. parse_connections data = Inr comps \<and>
     (\<forall>c t. lookup_conn comps c t = first_discovery (split_arrow (strip data)) c t)"
  unfolding parse_connections_def by (rule parse_tokens_lookup)

lemma lookup_conn_key: "lookup_conn comps c t = Some v \<Longrightarrow> c \<in> fst ` set comps"
  unfolding lookup_conn_def
  by (auto split: option.splits dest!: map_of_SomeD intro: rev_image_eqI)

lemma type_prefix_append:
  assumes "ty \<in> set [''NM'', ''PM'', ''R'', ''C'']" "r \<noteq> []" "isdigit (hd r)"
  shows "type_prefix (ty @ r) = ty"
proof -
  have nd: "\<forall>c\<in>set ty. \<not> isdigit c" using assms(1) by (auto simp: isdigit_def)
  obtain d ds where r: "r = d # ds" using assms(2) by (cases r) auto
  with assms(3) have "isdigit d" by simp
  then have "takeWhile (\<lambda>c. \<not> isdigit c) r = []" by (simp add: r)
  with nd show ?thesis unfolding type_prefix_def by (simp add: takeWhile_append2)
qed

lemma type_prefix_terminal:
  assumes "terminal_regex tok = Some (ty, num, t)"
  shows "type_prefix tok = ty"
proof -
  note d = terminal_regex_SomeD[OF assms]
  from d(2,3) have hd: "isdigit (hd num)" by (cases num) auto
  from d(5) obtain rest where "tok = ty @ (num @ rest)" by auto
  moreover have "isdigit (hd (num @ rest))" using hd d(2) by simp
  ultimately show ?thesis using type_prefix_append[OF d(1), of "num @ rest"] d(2) by simp
qed

lemma type_prefix_comp_id:
  assumes "comp_id_pattern k"
  shows "type_prefix k \<in> set [''NM'', ''PM'', ''R'', ''C'']"
proof -
  from assms obtain ty r where m: "match_comp_type k = Some (ty, r)" and r: "r \<noteq> []"
    and ds: "list_all isdigit r"
    unfolding comp_id_pattern_def by (auto split: option.splits)
  from match_comp_type_SomeD[OF m] have ty: "ty \<in> set [''NM'', ''PM'', ''R'', ''C'']"
    and k: "k = ty @ r" by auto
  from r ds have "isdigit (hd r)" by (cases r) auto
  from type_prefix_append[OF ty r this] ty show ?thesis unfolding k by simp
qed

lemma loop_body_not_terminal:
  "terminal_regex tok = None \<Longrightarrow> loop_body path (i, tok) comps = Inr comps"
  unfolding loop_body_def by simp

lemma parse_tokens_single: "parse_tokens [tok] = Inr []"
proof -
  have "loop_body [tok] (int 0, [tok] ! 0) [] = Inr []"
    by (subst loop_body_in_range) (auto split: option.splits)
  then show ?thesis
    unfolding parse_tokens_def enumerate_py_conv by simp
qed

lemma inspect_neighbour_excluded:
  "nb = c \<or> is_part_of_same_comp nb c \<Longrightarrow> inspect_neighbour comps c t nb = comps"
  unfolding inspect_neighbour_def by auto

lemma split_arrow_nonempty: "split_arrow s \<noteq> []"
  by (induction s rule: split_arrow.induct) (auto split: list.splits)

lemma parse_no_terminal_tokens:
  assumes "\<forall>tok\<in>set (split_arrow (strip data)). terminal_regex tok = None"
  shows "parse_connections data = Inr []"
proof -
  from parse_keys_shape[of data] obtain comps where
    p: "parse_connections data = Inr comps"
    and k: "\<forall>(k, d)\<in>set comps. \<exists>tok\<in>set (split_arrow (strip data)). \<exists>ty num t.
            terminal_regex tok = Some (ty, num, t) \<and> k = ty @ num"
    by fast
  have "comps = []"
  proof (cases comps)
    case Nil then show ?thesis .
  next
    case (Cons x xs)
    obtain k0 d0 where "x = (k0, d0)" by (cases x)
    with Cons k have "\<exists>tok\<in>set (split_arrow (strip data)). \<exists>ty num t.
            terminal_regex tok = Some (ty, num, t)" by auto
    with assms show ?thesis by auto
  qed
  with p show ?thesis by simp
qed

lemma parse_single_token:
  assumes "length (split_arrow (strip data)) = 1"
  shows "parse_connections data = Inr []"
proof -
  from assms obtain tok where "split_arrow (strip data) = [tok]"
    by (cases "split_arrow (strip data)") auto
  then show ?thesis unfolding parse_connections_def by (simp add: parse_tokens_single)
qed

lemma parse_connections_total: "\<exists>comps. parse_connections data = Inr comps"
  using parse_nonempty[of data] by blast

lemma parse_keys_type_prefix:
  "\<exists>comps. parse_connections data = Inr comps \<and>
     (\<forall>k\<in>fst ` set comps. type_prefix k \<in> set [''NM'', ''PM'', ''R'', ''C''])"
proof -
  from parse_keys_shape[of data] obtain comps where
    p: "parse_connections data = Inr comps"
    and k: "\<forall>(k, d)\<in>set comps. comp_id_pattern k" by fast
  have "type_prefix k \<in> set [''NM'', ''PM'', ''R'', ''C'']" if "k \<in> fst ` set comps" for k
  proof -
    from that obtain d where "(k, d) \<in> set comps" by auto
    with k have "comp_id_pattern k" by auto
    then show ?thesis by (rule type_prefix_comp_id)
  qed
  with p show ?thesis by blast
qed

lemma terminal_regex_unknown_prefix:
  assumes "type_prefix tok \<notin> set [''NM'', ''PM'', ''R'', ''C'']"
  shows "terminal_regex tok = None"
proof (cases "terminal_regex tok")
  case None then show ?thesis .
next
  case (Some a)
  obtain ty num t where "a = (ty, num, t)" by (cases a)
  with Some have s: "terminal_regex tok = Some (ty, num, t)" by simp
  from type_prefix_terminal[OF s] terminal_regex_SomeD(1)[OF s] assms show ?thesis by simp
qed

lemma name_regex_comp_id:
  assumes "comp_id_pattern k"
  shows "\<exists>ty r. name_regex k = Some (ty, r) \<and> ty \<in> set [''NM'', ''PM'', ''R'', ''C''] \<and> k = ty @ r"
proof -
  from assms obtain ty r where m: "match_comp_type k = Some (ty, r)" and r: "r \<noteq> []"
    and ds: "list_all isdigit r"
    unfolding comp_id_pattern_def by (auto split: option.splits)
  from match_comp_type_SomeD[OF m] have ty: "ty \<in> set [''NM'', ''PM'', ''R'', ''C'']"
    and k: "k = ty @ r" by auto
  have up: "\<forall>c\<in>set ty. isupper_AZ c" using ty by (auto simp: isupper_AZ_def)
  have nup: "\<not> isupper_AZ c" if "isdigit c" for c
    using that by (auto simp: isdigit_def isupper_AZ_def)
  obtain d ds' where rc: "r = d # ds'" using r by (cases r) auto
  with ds have "\<not> isupper_AZ d" by (simp add: nup)
  then have tw: "takeWhile isupper_AZ r = []" and dw: "dropWhile isupper_AZ r = r"
    by (simp_all add: rc)
  have g1: "takeWhile isupper_AZ k = ty" unfolding k using up tw by (simp add: takeWhile_append2)
  have g2: "dropWhile isupper_AZ k = r" unfolding k using up dw by (simp add: dropWhile_append2)
  have g3: "takeWhile isdigit r = r" using ds by (simp add: list_all_iff takeWhile_eq_all_conv)
  have "ty \<noteq> []" using ty by auto
  then have "name_regex k = Some (ty, r)"
    unfolding name_regex_def by (simp add: g1 g2 g3 r Let_def)
  with ty k show ?thesis by blast
qed

lemma sort_key_of_comp_id:
  "comp_id_pattern k \<Longrightarrow> \<exists>key. sort_key_of k = Inr key"
  using name_regex_comp_id[of k] unfolding sort_key_of_def by auto

lemma spice_line_comp_id:
  assumes "comp_id_pattern k"
  shows "\<exists>line. spice_line k conns = Some line"
proof -
  from name_regex_comp_id[OF assms] obtain ty r where
    ty: "ty \<in> set [''NM'', ''PM'', ''R'', ''C'']" and k: "k = ty @ r" by blast
  then show ?thesis unfolding spice_line_def startswith_def by auto
qed

lemma make_cell_comp_id:
  assumes "comp_id_pattern k"
  shows "\<exists>c. make_cell comps k = Inr c"
proof -
  from name_regex_comp_id[OF assms] have "takeWhile isupper_AZ k \<noteq> []"
    unfolding name_regex_def by (auto simp: Let_def split: if_splits)
  then show ?thesis unfolding make_cell_def by (simp add: Let_def)
qed

lemma map_err_total:
  assumes "\<forall>x\<in>set xs. \<exists>y. g x = Inr y"
  shows "\<exists>ys. map_err g xs = Inr ys \<and> length ys = length xs \<and>
           (\<forall>z\<in>set (zip ys xs). g (snd z) = Inr (fst z))"
  using assms
proof (induction xs)
  case Nil
  then show ?case by simp
next
  case (Cons x xs)
  then obtain y where y: "g x = Inr y" by auto
  from Cons obtain ys where ys: "map_err g xs = Inr ys" "length ys = length xs"
    "\<forall>z\<in>set (zip ys xs). g (snd z) = Inr (fst z)" by auto
  show ?case
    by (rule exI[of _ "y # ys"]) (use y ys in auto)
qed

lemma map_err_decorated:
  assumes "\<forall>z\<in>set zs. g (snd z) = Inr (fst z)"
  shows "map_err g (map snd zs) = Inr (map fst zs)"
  using assms by (induction zs) auto

lemma concat_lines:
  assumes "map f names = map Some lines"
  shows "concat (map (\<lambda>name. case f name of None \<Rightarrow> [] | Some line \<Rightarrow> [line]) names) = lines"
  using assms
proof (induction names arbitrary: lines)
  case Nil
  then show ?case by simp
next
  case (Cons n ns)
  then obtain l ls where "lines = l # ls" "f n = Some l" "map f ns = map Some ls"
    by (cases lines) auto
  with Cons.IH[of ls] show ?case by simp
qed

lemma all_some_lines:
  assumes "\<forall>n\<in>set names. \<exists>l. f n = Some l"
  shows "\<exists>lines. map f names = map Some lines"
  using assms
proof (induction names)
  case Nil
  then show ?case by simp
next
  case (Cons n ns)
  then obtain l where "f n = Some l" by auto
  moreover from Cons obtain ls where "map f ns = map Some ls" by auto
  ultimately have "map f (n # ns) = map Some (l # ls)" by simp
  then show ?case by blast
qed

lemma cells_loop:
  assumes "distinct names" "set names \<inter> fst ` set acc = {}"
    "\<forall>n\<in>set names. \<exists>c. mk n = Inr c"
  shows "\<exists>cells. for_loop (\<lambda>comp_name cells.
                      case mk comp_name of
                        Inl e \<Rightarrow> Inl e
                      | Inr c \<Rightarrow> Inr (AList.update comp_name c cells)) names acc = Inr cells \<and>
           map fst cells = map fst acc @ names"
  using assms
proof (induction names arbitrary: acc)
  case Nil
  then show ?case by simp
next
  case (Cons n ns)
  then obtain c where c: "mk n = Inr c" by auto
  from Cons.prems(2) have fresh: "map_of acc n = None" by (auto simp: map_of_eq_None_iff)
  have upd: "AList.update n c acc = acc @ [(n, c)]" by (rule update_fresh[OF fresh])
  have "set ns \<inter> fst ` set (acc @ [(n, c)]) = {}" using Cons.prems(1,2) by auto
  from Cons.IH[OF _ this] Cons.prems(1,3)
  obtain cells where "for_loop (\<lambda>comp_name cells.
                      case mk comp_name of
                        Inl e \<Rightarrow> Inl e
                      | Inr c \<Rightarrow> Inr (AList.update comp_name c cells)) ns (acc @ [(n, c)]) = Inr cells"
    "map fst cells = map fst (acc @ [(n, c)]) @ ns" by auto
  then show ?case by (simp add: c upd)
qed

lemma lex_sorted:
  fixes ks :: "(string \<times> int) list"
  assumes "sorted ks"
  shows "sorted_wrt (\<lambda>a b. fst a < fst b \<or> (fst a = fst b \<and> snd a \<le> snd b)) ks"
proof -
  have "a \<le> b \<Longrightarrow> fst a < fst b \<or> (fst a = fst b \<and> snd a \<le> snd b)" for a b :: "string \<times> int"
    by (auto simp: less_eq_prod_def)
  with assms show ?thesis by (auto intro: sorted_wrt_mono_rel[of ks "(\<le>)"])
qed

section \<open>Claims\<close>

text \<open>
  C9: for some inputs the recorded node name is the empty string. A leading separator,
  or two separators in a row, give an empty token; it passes both exclusion checks and is
  stored as it is: \<^verbatim>\<open>"->NM1_D"\<close> yields NM1 with terminal D connected to the empty
  string, and so does \<^verbatim>\<open>"A->->NM1_D"\<close>.
\<close>

theorem empty_node_name_recorded:
  "parse_connections ''->NM1_D'' = Inr [(''NM1'', [(CHR ''D'', [])])] \<and>
   parse_connections ''A->->NM1_D'' = Inr [(''NM1'', [(CHR ''D'', [])])] \<and>
   split_arrow (strip ''->NM1_D'') = [[], ''NM1_D''] \<and>
   lookup_conn [(''NM1'', [(CHR ''D'', [])])] ''NM1'' (CHR ''D'') = Some []"
proof (intro conjI)
  show "parse_connections ''->NM1_D'' = Inr [(''NM1'', [(CHR ''D'', [])])]" by code_simp
  show "parse_connections ''A->->NM1_D'' = Inr [(''NM1'', [(CHR ''D'', [])])]" by code_simp
  show "split_arrow (strip ''->NM1_D'') = [[], ''NM1_D'']" by code_simp
  show "lookup_conn [(''NM1'', [(CHR ''D'', [])])] ''NM1'' (CHR ''D'') = Some []" by code_simp
qed

text \<open>
  C1: for every terminal of every component at most one node name is recorded, and it is
  the first admissible discovery of the scan: positions in ascending order, at each
  position the left neighbour before the right one. The outer and the inner dictionary
  have distinct keys, the recorded node of a terminal is the first element of its list of
  discoveries, and an inspection never changes an entry that is already there. Parsing
  \<^verbatim>\<open>"A->R1_P->B"\<close> yields R1 with P connected to A, also when the path goes on
  with \<^verbatim>\<open>"->R1_P->B"\<close> twice.
\<close>

theorem first_discovery_wins:
  "(\<exists>comps. parse_connections data = Inr comps \<and>
      distinct (map fst comps) \<and> (\<forall>(k, d)\<in>set comps. distinct (map fst d)) \<and>
      (\<forall>c t. lookup_conn comps c t = first_discovery (split_arrow (strip data)) c t)) \<and>
   (\<forall>v. lookup_conn comps0 c0 t0 = Some v \<longrightarrow>
        lookup_conn (inspect_neighbour comps0 c1 t1 nb) c0 t0 = Some v) \<and>
   parse_connections ''A->R1_P->B'' = Inr [(''R1'', [(CHR ''P'', ''A'')])] \<and>
   parse_connections ''A->R1_P->B->R1_P->B->R1_P->B'' = Inr [(''R1'', [(CHR ''P'', ''A'')])]"
proof (intro conjI)
  from parse_wellformed[of data] parse_connections_lookup[of data]
  show "\<exists>comps. parse_connections data = Inr comps \<and>
      distinct (map fst comps) \<and> (\<forall>(k, d)\<in>set comps. distinct (map fst d)) \<and>
      (\<forall>c t. lookup_conn comps c t = first_discovery (split_arrow (strip data)) c t)"
    by auto
  show "\<forall>v. lookup_conn comps0 c0 t0 = Some v \<longrightarrow>
        lookup_conn (inspect_neighbour comps0 c1 t1 nb) c0 t0 = Some v"
    by (simp add: lookup_conn_monotone)
  show "parse_connections ''A->R1_P->B'' = Inr [(''R1'', [(CHR ''P'', ''A'')])]"
    by code_simp
  show "parse_connections ''A->R1_P->B->R1_P->B->R1_P->B'' = Inr [(''R1'', [(CHR ''P'', ''A'')])]"
    by code_simp
qed

theorem first_discovery_wins_witness:
  "\<exists>comps. parse_connections ''A->R1_P->B->R1_P->C'' = Inr comps \<and>
     lookup_conn comps ''R1'' (CHR ''P'') = Some ''A'' \<and>
     discoveries (split_arrow (strip ''A->R1_P->B->R1_P->C'')) ''R1'' (CHR ''P'') =
       [''A'', ''B'', ''B'', ''C'']"
proof -
  have d: "discoveries (split_arrow (strip ''A->R1_P->B->R1_P->C'')) ''R1'' (CHR ''P'') =
       [''A'', ''B'', ''B'', ''C'']" by code_simp
  then have "first_discovery (split_arrow (strip ''A->R1_P->B->R1_P->C'')) ''R1'' (CHR ''P'') = Some ''A''"
    by (simp add: first_discovery_def)
  moreover from first_discovery_wins[where data = "''A->R1_P->B->R1_P->C''", THEN conjunct1]
  obtain comps where "parse_connections ''A->R1_P->B->R1_P->C'' = Inr comps"
    "\<forall>c t. lookup_conn comps c t =
       first_discovery (split_arrow (strip ''A->R1_P->B->R1_P->C'')) c t"
    by blast
  ultimately show ?thesis using d by simp
qed

text \<open>
  C2: a neighbour token that equals the bare identifier of the owning component, or that
  is itself a terminal token of the same component, is never recorded as the connection
  of a terminal of that component: no entry of the result holds such a node, and an
  inspection of such a neighbour leaves the map as it is. Parsing
  \<^verbatim>\<open>"NM1_D->NM1_G->X"\<close> yields the single component NM1 with no entry for D and
  with G connected to X.
\<close>

theorem same_component_neighbour_excluded:
  "(\<exists>comps. parse_connections data = Inr comps \<and>
      (\<forall>(k, d)\<in>set comps. \<forall>(t, v)\<in>set d. v \<noteq> k \<and> \<not> is_part_of_same_comp v k)) \<and>
   (nb = c \<or> is_part_of_same_comp nb c \<longrightarrow> inspect_neighbour comps0 c t nb = comps0) \<and>
   parse_connections ''NM1_D->NM1_G->X'' = Inr [(''NM1'', [(CHR ''G'', ''X'')])] \<and>
   lookup_conn [(''NM1'', [(CHR ''G'', ''X'')])] ''NM1'' (CHR ''D'') = None \<and>
   lookup_conn [(''NM1'', [(CHR ''G'', ''X'')])] ''NM1'' (CHR ''G'') = Some ''X''"
proof (intro conjI)
  from parse_external[of data]
  show "\<exists>comps. parse_connections data = Inr comps \<and>
      (\<forall>(k, d)\<in>set comps. \<forall>(t, v)\<in>set d. v \<noteq> k \<and> \<not> is_part_of_same_comp v k)"
    unfolding external_node_def by fast
  show "nb = c \<or> is_part_of_same_comp nb c \<longrightarrow> inspect_neighbour comps0 c t nb = comps0"
    by (simp add: inspect_neighbour_excluded)
  show "parse_connections ''NM1_D->NM1_G->X'' = Inr [(''NM1'', [(CHR ''G'', ''X'')])]"
    by code_simp
  show "lookup_conn [(''NM1'', [(CHR ''G'', ''X'')])] ''NM1'' (CHR ''D'') = None"
    by code_simp
  show "lookup_conn [(''NM1'', [(CHR ''G'', ''X'')])] ''NM1'' (CHR ''G'') = Some ''X''"
    by code_simp
qed

theorem same_component_neighbour_excluded_witness:
  "is_part_of_same_comp ''NM1_G'' ''NM1'' \<and>
   inspect_neighbour [] ''NM1'' (CHR ''D'') ''NM1_G'' = [] \<and>
   inspect_neighbour [] ''NM1'' (CHR ''D'') ''NM1'' = [] \<and>
   (\<exists>comps. parse_connections ''NM1->NM1_D->NM1_G->X'' = Inr comps \<and>
      (\<forall>(k, d)\<in>set comps. \<forall>(t, v)\<in>set d. v \<noteq> k \<and> \<not> is_part_of_same_comp v k))"
proof -
  have s: "is_part_of_same_comp ''NM1_G'' ''NM1''" by code_simp
  from s same_component_neighbour_excluded[where nb = "''NM1_G''" and c = "''NM1''"
      and ?comps0.0 = "[]" and t = "CHR ''D''" and data = "''NM1->NM1_D->NM1_G->X''"]
    same_component_neighbour_excluded[where nb = "''NM1''" and c = "''NM1''"
      and ?comps0.0 = "[]" and t = "CHR ''D''" and data = "''NM1->NM1_D->NM1_G->X''"]
  show ?thesis by blast
qed

text \<open>
  C8: every component identifier in the returned map has a non-empty inner mapping. A
  component whose terminal tokens have only excluded neighbours, or none, is no key at
  all: parsing \<^verbatim>\<open>"NM1_D->NM1_G"\<close> returns the empty map.
\<close>

theorem no_empty_component:
  "(\<exists>comps. parse_connections data = Inr comps \<and> (\<forall>(k, d)\<in>set comps. d \<noteq> [])) \<and>
   parse_connections ''NM1_D->NM1_G'' = Inr []"
proof (intro conjI)
  show "\<exists>comps. parse_connections data = Inr comps \<and> (\<forall>(k, d)\<in>set comps. d \<noteq> [])"
    by (rule parse_nonempty)
  show "parse_connections ''NM1_D->NM1_G'' = Inr []" by code_simp
qed

theorem no_empty_component_witness:
  "parse_connections ''NM1_D->NM1_G->X'' = Inr [(''NM1'', [(CHR ''G'', ''X'')])] \<and>
   (\<exists>comps. parse_connections ''NM1_D->NM1_G->X'' = Inr comps \<and> (\<forall>(k, d)\<in>set comps. d \<noteq> []))"
proof -
  have "parse_connections ''NM1_D->NM1_G->X'' = Inr [(''NM1'', [(CHR ''G'', ''X'')])]"
    by code_simp
  with no_empty_component[where data = "''NM1_D->NM1_G->X''"] show ?thesis by blast
qed

text \<open>
  C3, as stated: every key of the returned map matches the identifier pattern, and every
  terminal code of a component is a legal code of that component's type (D, G, S, B for
  the transistors; P, N for the passives). The second half fails: the pattern has one
  letter class for all types, so \<^verbatim>\<open>"A->R1_D"\<close> records terminal D for the resistor R1,
  and D is no terminal code of a resistor.
\<close>

theorem legal_codes_per_type_counterexample:
  "parse_connections ''A->R1_D'' = Inr [(''R1'', [(CHR ''D'', ''A'')])] \<and>
   type_prefix ''R1'' = ''R'' \<and>
   legal_terminal_codes ''R'' = ''PN'' \<and>
   CHR ''D'' \<notin> set (legal_terminal_codes (type_prefix ''R1''))"
proof (intro conjI)
  show "parse_connections ''A->R1_D'' = Inr [(''R1'', [(CHR ''D'', ''A'')])]" by code_simp
  show "type_prefix ''R1'' = ''R''" by code_simp
  show "legal_terminal_codes ''R'' = ''PN''" by code_simp
  show "CHR ''D'' \<notin> set (legal_terminal_codes (type_prefix ''R1''))" by code_simp
qed

text \<open>
  C3, amended: for every input string, every key of the returned map matches the
  identifier pattern (prefix NM, PM, R or C followed by digits), and every terminal code
  in its inner mapping is one of the six letters D, G, S, B, P, N of the pattern's letter
  class, whatever the type of the component.
\<close>

theorem keys_and_terminal_codes_shape:
  "\<exists>comps. parse_connections data = Inr comps \<and>
     (\<forall>(k, d)\<in>set comps. comp_id_pattern k \<and> (\<forall>(t, v)\<in>set d. t \<in> set ''DGSBPN''))"
  using parse_keys_shape[of data] by fast

theorem keys_and_terminal_codes_shape_witness:
  "parse_connections ''A->R1_D->B->NM02_G'' =
     Inr [(''R1'', [(CHR ''D'', ''A'')]), (''NM02'', [(CHR ''G'', ''B'')])] \<and>
   comp_id_pattern ''R1'' \<and> comp_id_pattern ''NM02'' \<and>
   (\<exists>comps. parse_connections ''A->R1_D->B->NM02_G'' = Inr comps \<and>
     (\<forall>(k, d)\<in>set comps. comp_id_pattern k \<and> (\<forall>(t, v)\<in>set d. t \<in> set ''DGSBPN'')))"
proof -
  have "parse_connections ''A->R1_D->B->NM02_G'' =
     Inr [(''R1'', [(CHR ''D'', ''A'')]), (''NM02'', [(CHR ''G'', ''B'')])]" by code_simp
  moreover have "comp_id_pattern ''R1''" by code_simp
  moreover have "comp_id_pattern ''NM02''" by code_simp
  ultimately show ?thesis
    using keys_and_terminal_codes_shape[where data = "''A->R1_D->B->NM02_G''"] by blast
qed

text \<open>
  C4, as stated: a token with a recognised prefix and numeric id but a terminal letter
  that is not a code of that component type is no terminal match. It fails for a letter
  of another type: G is no terminal code of a capacitor, yet \<^verbatim>\<open>"C2_G"\<close> matches the
  pattern and \<^verbatim>\<open>"X->C2_G"\<close> records terminal G of C2.
\<close>

theorem unrecognized_letter_counterexample:
  "terminal_regex ''C2_G'' = Some (''C'', ''2'', CHR ''G'') \<and>
   CHR ''G'' \<notin> set (legal_terminal_codes ''C'') \<and>
   parse_connections ''X->C2_G'' = Inr [(''C2'', [(CHR ''G'', ''X'')])]"
proof (intro conjI)
  show "terminal_regex ''C2_G'' = Some (''C'', ''2'', CHR ''G'')" by code_simp
  show "CHR ''G'' \<notin> set (legal_terminal_codes ''C'')" by code_simp
  show "parse_connections ''X->C2_G'' = Inr [(''C2'', [(CHR ''G'', ''X'')])]" by code_simp
qed

text \<open>
  C4, amended: a token with a recognised prefix and numeric id whose terminal letter is
  outside the pattern's letter class D, G, S, B, P, N is no terminal match; at any
  position and in any state it leaves the map as it is, and it serves as a node name for
  its neighbours. In particular \<^verbatim>\<open>"R1_Z"\<close> never contributes a terminal mapping, and
  \<^verbatim>\<open>"R1_Z->NM1_D"\<close> records it as the node of terminal D of NM1.
\<close>

theorem letter_outside_class_not_terminal:
  "(ty \<in> set [''NM'', ''PM'', ''R'', ''C''] \<and> (\<forall>c\<in>set num. isdigit c) \<and> z \<notin> set ''DGSBPN'' \<longrightarrow>
      terminal_regex (ty @ num @ [CHR ''_'', z]) = None \<and>
      loop_body path (i, ty @ num @ [CHR ''_'', z]) comps = Inr comps) \<and>
   terminal_regex ''R1_Z'' = None \<and>
   loop_body path (i, ''R1_Z'') comps = Inr comps \<and>
   parse_connections ''R1_Z->NM1_D'' = Inr [(''NM1'', [(CHR ''D'', ''R1_Z'')])] \<and>
   parse_connections ''R1_Z->R1_P'' = Inr [(''R1'', [(CHR ''P'', ''R1_Z'')])]"
proof (intro conjI)
  show "ty \<in> set [''NM'', ''PM'', ''R'', ''C''] \<and> (\<forall>c\<in>set num. isdigit c) \<and> z \<notin> set ''DGSBPN'' \<longrightarrow>
      terminal_regex (ty @ num @ [CHR ''_'', z]) = None \<and>
      loop_body path (i, ty @ num @ [CHR ''_'', z]) comps = Inr comps"
    using terminal_regex_bad_letter[of ty num z] loop_body_not_terminal by blast
  show r: "terminal_regex ''R1_Z'' = None" by code_simp
  show "loop_body path (i, ''R1_Z'') comps = Inr comps"
    by (rule loop_body_not_terminal[OF r])
  show "parse_connections ''R1_Z->NM1_D'' = Inr [(''NM1'', [(CHR ''D'', ''R1_Z'')])]"
    by code_simp
  show "parse_connections ''R1_Z->R1_P'' = Inr [(''R1'', [(CHR ''P'', ''R1_Z'')])]"
    by code_simp
qed

theorem letter_outside_class_not_terminal_witness:
  "''R'' \<in> set [''NM'', ''PM'', ''R'', ''C''] \<and> isdigit (CHR ''1'') \<and>
   CHR ''Z'' \<notin> set ''DGSBPN'' \<and>
   terminal_regex (''R'' @ ''1'' @ [CHR ''_'', CHR ''Z'']) = None \<and>
   loop_body [''A'', ''R1_Z''] (1, ''R'' @ ''1'' @ [CHR ''_'', CHR ''Z'']) [] = Inr []"
proof -
  have h: "''R'' \<in> set [''NM'', ''PM'', ''R'', ''C''] \<and> (\<forall>c\<in>set ''1''. isdigit c) \<and>
      CHR ''Z'' \<notin> set ''DGSBPN''" by (simp add: isdigit_def)
  have d: "isdigit (CHR ''1'')" by (simp add: isdigit_def)
  from h d letter_outside_class_not_terminal[where ty = "''R''" and num = "''1''"
      and z = "CHR ''Z''" and path = "[''A'', ''R1_Z'']" and i = 1 and comps = "[]"]
  show ?thesis by blast
qed

text \<open>
  C5: \<^verbatim>\<open>parse_connections\<close> never raises. Every index it reads is in range, so for
  every input string it returns a map. The empty string yields the empty map, a string
  none of whose tokens matches the terminal pattern yields the empty map, and a string
  with exactly one token yields the empty map.
\<close>

theorem parse_never_raises:
  "(\<exists>comps. parse_connections data = Inr comps) \<and>
   parse_connections [] = Inr [] \<and>
   ((\<forall>tok\<in>set (split_arrow (strip data)). terminal_regex tok = None) \<longrightarrow>
      parse_connections data = Inr []) \<and>
   (length (split_arrow (strip data)) = 1 \<longrightarrow> parse_connections data = Inr [])"
proof (intro conjI)
  show "\<exists>comps. parse_connections data = Inr comps" by (rule parse_connections_total)
  show "parse_connections [] = Inr []" by code_simp
  show "(\<forall>tok\<in>set (split_arrow (strip data)). terminal_regex tok = None) \<longrightarrow>
      parse_connections data = Inr []"
    using parse_no_terminal_tokens by blast
  show "length (split_arrow (strip data)) = 1 \<longrightarrow> parse_connections data = Inr []"
    using parse_single_token by blast
qed

theorem parse_never_raises_witness:
  "split_arrow (strip ''VDD->R1_Z->GND'') = [''VDD'', ''R1_Z'', ''GND''] \<and>
   terminal_regex ''VDD'' = None \<and> terminal_regex ''R1_Z'' = None \<and>
   terminal_regex ''GND'' = None \<and>
   parse_connections ''VDD->R1_Z->GND'' = Inr [] \<and>
   length (split_arrow (strip '' NM1_D '')) = 1 \<and>
   parse_connections '' NM1_D '' = Inr []"
proof -
  have s: "split_arrow (strip ''VDD->R1_Z->GND'') = [''VDD'', ''R1_Z'', ''GND'']" by code_simp
  have t: "terminal_regex ''VDD'' = None" "terminal_regex ''R1_Z'' = None"
    "terminal_regex ''GND'' = None" by code_simp+
  then have a: "\<forall>tok\<in>set (split_arrow (strip ''VDD->R1_Z->GND'')). terminal_regex tok = None"
    unfolding s by simp
  have b: "length (split_arrow (strip '' NM1_D '')) = 1" by code_simp
  from a b parse_never_raises[where data = "''VDD->R1_Z->GND''"]
    parse_never_raises[where data = "'' NM1_D ''"]
  have "parse_connections ''VDD->R1_Z->GND'' = Inr [] \<and>
    length (split_arrow (strip '' NM1_D '')) = 1 \<and> parse_connections '' NM1_D '' = Inr []"
    by blast
  with s t show ?thesis by simp
qed

text \<open>
  C6: a token whose type prefix (what stands before its first digit) is not exactly one
  of NM, PM, R, C, compared case-sensitively, is no terminal token: at any position and
  in any state it leaves the map as it is, so it never produces a component instance and
  only serves as a node name. Every key of the returned map has one of the four prefixes;
  \<^verbatim>\<open>"VDD"\<close> and \<^verbatim>\<open>"nm1_d"\<close> are never keys.
\<close>

theorem unrecognised_prefix_never_component:
  "(type_prefix tok \<notin> set [''NM'', ''PM'', ''R'', ''C''] \<longrightarrow>
      terminal_regex tok = None \<and> loop_body path (i, tok) comps0 = Inr comps0) \<and>
   (\<exists>comps. parse_connections data = Inr comps \<and>
      (\<forall>k\<in>fst ` set comps. type_prefix k \<in> set [''NM'', ''PM'', ''R'', ''C'']) \<and>
      ''VDD'' \<notin> fst ` set comps \<and> ''nm1_d'' \<notin> fst ` set comps) \<and>
   parse_connections ''VDD->nm1_d->NM1_D->nm1_g'' = Inr [(''NM1'', [(CHR ''D'', ''nm1_d'')])]"
proof (intro conjI)
  show "type_prefix tok \<notin> set [''NM'', ''PM'', ''R'', ''C''] \<longrightarrow>
      terminal_regex tok = None \<and> loop_body path (i, tok) comps0 = Inr comps0"
    using terminal_regex_unknown_prefix[of tok] loop_body_not_terminal by blast
  have v: "type_prefix ''VDD'' \<notin> set [''NM'', ''PM'', ''R'', ''C'']" by code_simp
  have n: "type_prefix ''nm1_d'' \<notin> set [''NM'', ''PM'', ''R'', ''C'']" by code_simp
  from parse_keys_type_prefix[of data] obtain comps where
    p: "parse_connections data = Inr comps"
    and k: "\<forall>k\<in>fst ` set comps. type_prefix k \<in> set [''NM'', ''PM'', ''R'', ''C'']" by blast
  from k v have "''VDD'' \<notin> fst ` set comps" by blast
  moreover from k n have "''nm1_d'' \<notin> fst ` set comps" by blast
  ultimately show "\<exists>comps. parse_connections data = Inr comps \<and>
      (\<forall>k\<in>fst ` set comps. type_prefix k \<in> set [''NM'', ''PM'', ''R'', ''C'']) \<and>
      ''VDD'' \<notin> fst ` set comps \<and> ''nm1_d'' \<notin> fst ` set comps"
    using p k by blast
  show "parse_connections ''VDD->nm1_d->NM1_D->nm1_g'' = Inr [(''NM1'', [(CHR ''D'', ''nm1_d'')])]"
    by code_simp
qed

theorem unrecognised_prefix_never_component_witness:
  "type_prefix ''nm1_d'' \<notin> set [''NM'', ''PM'', ''R'', ''C''] \<and>
   terminal_regex ''nm1_d'' = None \<and>
   loop_body [''VDD'', ''nm1_d''] (1, ''nm1_d'') [] = Inr [] \<and>
   (\<exists>comps. parse_connections ''VDD->nm1_d->NM1_D'' = Inr comps \<and>
      ''VDD'' \<notin> fst ` set comps \<and> ''nm1_d'' \<notin> fst ` set comps)"
proof -
  have n: "type_prefix ''nm1_d'' \<notin> set [''NM'', ''PM'', ''R'', ''C'']" by code_simp
  from n unrecognised_prefix_never_component[where tok = "''nm1_d''"
      and path = "[''VDD'', ''nm1_d'']" and i = 1 and ?comps0.0 = "[]"
      and data = "''VDD->nm1_d->NM1_D''"]
  show ?thesis by blast
qed

text \<open>
  C10: a component identifier is the matched prefix followed by the matched digits as
  they are written, so leading zeros make different components. The tokens
  \<^verbatim>\<open>"NM01_D"\<close> and \<^verbatim>\<open>"NM1_G"\<close> belong to NM01 and NM1; whenever an input offers
  each of the two terminals an external neighbour, both identifiers are keys of the
  result, although both numeric ids are 1.
\<close>

theorem leading_zeros_distinct_components:
  "(ty \<in> set [''NM'', ''PM'', ''R'', ''C''] \<and> num \<noteq> [] \<and> (\<forall>c\<in>set num. isdigit c) \<and>
      t \<in> set ''DGSBPN'' \<longrightarrow>
      terminal_regex (ty @ num @ [CHR ''_'', t]) = Some (ty, num, t)) \<and>
   (\<exists>comps. parse_connections data = Inr comps \<and>
      (discoveries (split_arrow (strip data)) ''NM01'' (CHR ''D'') \<noteq> [] \<and>
       discoveries (split_arrow (strip data)) ''NM1'' (CHR ''G'') \<noteq> [] \<longrightarrow>
         ''NM01'' \<in> fst ` set comps \<and> ''NM1'' \<in> fst ` set comps \<and> ''NM01'' \<noteq> ''NM1'')) \<and>
   parse_connections ''A->NM01_D->B->NM1_G'' =
     Inr [(''NM01'', [(CHR ''D'', ''A'')]), (''NM1'', [(CHR ''G'', ''B'')])] \<and>
   py_int ''01'' = py_int ''1''"
proof (intro conjI)
  show "ty \<in> set [''NM'', ''PM'', ''R'', ''C''] \<and> num \<noteq> [] \<and> (\<forall>c\<in>set num. isdigit c) \<and>
      t \<in> set ''DGSBPN'' \<longrightarrow>
      terminal_regex (ty @ num @ [CHR ''_'', t]) = Some (ty, num, t)"
    using terminal_regex_complete(1)[of ty num t] by blast
  from parse_connections_lookup[of data] obtain comps where
    p: "parse_connections data = Inr comps"
    and l: "\<And>c t. lookup_conn comps c t = first_discovery (split_arrow (strip data)) c t"
    by blast
  have key: "c \<in> fst ` set comps" if "discoveries (split_arrow (strip data)) c t \<noteq> []" for c t
  proof -
    from that obtain v where "first_discovery (split_arrow (strip data)) c t = Some v"
      unfolding first_discovery_def
      by (cases "discoveries (split_arrow (strip data)) c t") auto
    with l[of c t] show ?thesis by (auto dest: lookup_conn_key)
  qed
  have ne: "''NM01'' \<noteq> ''NM1''" by simp
  have "discoveries (split_arrow (strip data)) ''NM01'' (CHR ''D'') \<noteq> [] \<and>
       discoveries (split_arrow (strip data)) ''NM1'' (CHR ''G'') \<noteq> [] \<longrightarrow>
         ''NM01'' \<in> fst ` set comps \<and> ''NM1'' \<in> fst ` set comps \<and> ''NM01'' \<noteq> ''NM1''"
    using key[of "''NM01''" "CHR ''D''"] key[of "''NM1''" "CHR ''G''"] ne
    by (intro impI conjI; elim conjE; assumption?)
  with p show "\<exists>comps. parse_connections data = Inr comps \<and>
      (discoveries (split_arrow (strip data)) ''NM01'' (CHR ''D'') \<noteq> [] \<and>
       discoveries (split_arrow (strip data)) ''NM1'' (CHR ''G'') \<noteq> [] \<longrightarrow>
         ''NM01'' \<in> fst ` set comps \<and> ''NM1'' \<in> fst ` set comps \<and> ''NM01'' \<noteq> ''NM1'')"
    by (intro exI[of _ comps] conjI)
  show "parse_connections ''A->NM01_D->B->NM1_G'' =
     Inr [(''NM01'', [(CHR ''D'', ''A'')]), (''NM1'', [(CHR ''G'', ''B'')])]" by code_simp
  show "py_int ''01'' = py_int ''1''" by (simp add: py_int_def)
qed

theorem leading_zeros_distinct_components_witness:
  "terminal_regex (''NM'' @ ''01'' @ [CHR ''_'', CHR ''D'']) = Some (''NM'', ''01'', CHR ''D'') \<and>
   discoveries (split_arrow (strip ''NM1_G->X->NM01_D'')) ''NM01'' (CHR ''D'') = [''X''] \<and>
   discoveries (split_arrow (strip ''NM1_G->X->NM01_D'')) ''NM1'' (CHR ''G'') = [''X''] \<and>
   (\<exists>comps. parse_connections ''NM1_G->X->NM01_D'' = Inr comps \<and>
      ''NM01'' \<in> fst ` set comps \<and> ''NM1'' \<in> fst ` set comps)"
proof -
  have h: "''NM'' \<in> set [''NM'', ''PM'', ''R'', ''C''] \<and> ''01'' \<noteq> [] \<and>
      (\<forall>c\<in>set ''01''. isdigit c) \<and> CHR ''D'' \<in> set ''DGSBPN''"
    by (simp add: isdigit_def)
  have d1: "discoveries (split_arrow (strip ''NM1_G->X->NM01_D'')) ''NM01'' (CHR ''D'') = [''X'']"
    by code_simp
  have d2: "discoveries (split_arrow (strip ''NM1_G->X->NM01_D'')) ''NM1'' (CHR ''G'') = [''X'']"
    by code_simp
  note inst = leading_zeros_distinct_components[where ty = "''NM''" and num = "''01''"
      and t = "CHR ''D''" and data = "''NM1_G->X->NM01_D''"]
  from inst[THEN conjunct1] h
  have a: "terminal_regex (''NM'' @ ''01'' @ [CHR ''_'', CHR ''D'']) = Some (''NM'', ''01'', CHR ''D'')"
    by (rule mp)
  from inst[THEN conjunct2, THEN conjunct1] obtain comps where
    p: "parse_connections ''NM1_G->X->NM01_D'' = Inr comps"
    and k: "discoveries (split_arrow (strip ''NM1_G->X->NM01_D'')) ''NM01'' (CHR ''D'') \<noteq> [] \<and>
       discoveries (split_arrow (strip ''NM1_G->X->NM01_D'')) ''NM1'' (CHR ''G'') \<noteq> [] \<longrightarrow>
         ''NM01'' \<in> fst ` set comps \<and> ''NM1'' \<in> fst ` set comps \<and> ''NM01'' \<noteq> ''NM1''"
    by (elim exE conjE)
  have "discoveries (split_arrow (strip ''NM1_G->X->NM01_D'')) ''NM01'' (CHR ''D'') \<noteq> [] \<and>
       discoveries (split_arrow (strip ''NM1_G->X->NM01_D'')) ''NM1'' (CHR ''G'') \<noteq> []"
    unfolding d1 d2 by simp
  with k have "''NM01'' \<in> fst ` set comps \<and> ''NM1'' \<in> fst ` set comps \<and> ''NM01'' \<noteq> ''NM1''"
    by (rule mp)
  then have "parse_connections ''NM1_G->X->NM01_D'' = Inr comps \<and>
      ''NM01'' \<in> fst ` set comps \<and> ''NM1'' \<in> fst ` set comps"
    using p by blast
  then have "\<exists>comps. parse_connections ''NM1_G->X->NM01_D'' = Inr comps \<and>
      ''NM01'' \<in> fst ` set comps \<and> ''NM1'' \<in> fst ` set comps" by (rule exI)
  with a d1 d2 show ?thesis by (intro conjI)
qed

end
